theory Spec2Isabelle
  imports Main
begin

section \<open>The jobs table\<close>

text \<open>
  The queue module keeps one SQLite table, created by \<^verbatim>\<open>initQueueDb\<close>:
  \<^verbatim>\<open>
    CREATE TABLE IF NOT EXISTS jobs (
      id TEXT PRIMARY KEY,
      params TEXT NOT NULL,
      status TEXT NOT NULL DEFAULT 'queued',
      createdAt DATETIME DEFAULT CURRENT_TIMESTAMP,
      processedAt DATETIME,
      error TEXT
    );
  \<close>
  A row is a record with one field per column. The module writes four status literals
  only, so the column is a datatype. Timestamps are clock readings in seconds
  (\<^verbatim>\<open>CURRENT_TIMESTAMP\<close> has a resolution of one second); \<open>createdAt\<close> is always
  filled by its default, since the only INSERT of the module never names the column.
  The column \<^verbatim>\<open>id\<close> is the field \<open>job_id\<close> (\<open>id\<close> is the identity function of HOL).
\<close>

datatype job_status = Queued | Running | Completed | Failed

record job_row =
  job_id :: string
  params :: string
  status :: job_status
  createdAt :: nat
  processedAt :: "nat option"
  error :: "string option"

text \<open>
  The state of the store is the table, its rows in rowid order (the order of insertion:
  rows are never deleted), together with the state of the one shared connection:
  \<open>tx = None\<close> when no transaction is open, \<open>tx = Some snapshot\<close> inside a transaction
  begun when the table was \<open>snapshot\<close>.
\<close>

record db =
  jobs :: "job_row list"
  tx :: "job_row list option"

definition fresh_db :: db where
  "fresh_db = \<lparr>jobs = [], tx = None\<rparr>"

section \<open>The storage engine and the environment\<close>

text \<open>
  What a call rejects with: an engine error (lock contention, a violated constraint, a
  misuse such as \<^verbatim>\<open>cannot rollback - no transaction is active\<close>) or the
  \<^verbatim>\<open>SyntaxError\<close> of \<^verbatim>\<open>JSON.parse\<close>.
\<close>

datatype error = SQLITE_BUSY | SQLITE_CONSTRAINT | SQLITE_ERROR | SyntaxError

text \<open>
  The environment of one call: the reading of the clock, and for each kind of statement
  whether the engine refuses it because another connection holds the write lock.
\<close>

datatype stmt =
  Begin_Immediate | Select_Oldest | Insert_Job | Update_Running | Update_Completed
  | Update_Failed | Commit

record env =
  clock :: nat
  busy :: "stmt \<Rightarrow> bool"

definition quiet :: "nat \<Rightarrow> env" where
  "quiet t = \<lparr>clock = t, busy = (\<lambda>s. False)\<rparr>"

text \<open>
  An awaited call either rejects or resolves, and leaves a store behind in both cases.
  \<open>and_then\<close> sequences two awaits inside a \<^verbatim>\<open>try\<close> block: a rejection skips the rest.
\<close>

type_synonym 'a outcome = "(error + 'a) \<times> db"

definition and_then :: "'a outcome \<Rightarrow> ('a \<Rightarrow> db \<Rightarrow> 'b outcome) \<Rightarrow> 'b outcome" where
  "and_then r k = (case r of (Inl x, d) \<Rightarrow> (Inl x, d) | (Inr a, d) \<Rightarrow> k a d)"

text \<open>
  \<^verbatim>\<open>BEGIN IMMEDIATE TRANSACTION\<close>, \<^verbatim>\<open>COMMIT\<close> and \<^verbatim>\<open>ROLLBACK\<close>. A refused
  statement changes nothing. SQLite rejects a BEGIN inside a transaction, and a COMMIT or
  a ROLLBACK outside one. A ROLLBACK inside a transaction restores the snapshot.
\<close>

definition exec_begin :: "env \<Rightarrow> db \<Rightarrow> unit outcome" where
  "exec_begin e d =
     (if busy e Begin_Immediate then (Inl SQLITE_BUSY, d)
      else if tx d \<noteq> None then (Inl SQLITE_ERROR, d)
      else (Inr (), d\<lparr>tx := Some (jobs d)\<rparr>))"

definition exec_commit :: "env \<Rightarrow> db \<Rightarrow> unit outcome" where
  "exec_commit e d =
     (if busy e Commit then (Inl SQLITE_BUSY, d)
      else if tx d = None then (Inl SQLITE_ERROR, d)
      else (Inr (), d\<lparr>tx := None\<rparr>))"

definition exec_rollback :: "db \<Rightarrow> unit outcome" where
  "exec_rollback d =
     (case tx d of
        None \<Rightarrow> (Inl SQLITE_ERROR, d)
      | Some snapshot \<Rightarrow> (Inr (), d\<lparr>jobs := snapshot, tx := None\<rparr>))"

text \<open>
  \<^verbatim>\<open>SELECT id, params FROM jobs WHERE status = 'queued' ORDER BY createdAt LIMIT 1\<close>:
  the table is scanned in rowid order and the row with the least \<open>createdAt\<close> is kept;
  of several rows with the least value, the one scanned first.
\<close>

definition older :: "job_row \<Rightarrow> job_row \<Rightarrow> job_row" where
  "older best r = (if createdAt r < createdAt best then r else best)"

definition oldest_queued :: "job_row list \<Rightarrow> job_row option" where
  "oldest_queued rs =
     (case filter (\<lambda>r. status r = Queued) rs of
        [] \<Rightarrow> None
      | q # qs \<Rightarrow> Some (foldl older q qs))"

definition select_oldest :: "env \<Rightarrow> db \<Rightarrow> (string \<times> string) option outcome" where
  "select_oldest e d =
     (if busy e Select_Oldest then (Inl SQLITE_BUSY, d)
      else (Inr (map_option (\<lambda>r. (job_id r, params r)) (oldest_queued (jobs d))), d))"

text \<open>
  The statements with placeholders take the bound values in the order of their
  \<^verbatim>\<open>?\<close>s.
  \<^verbatim>\<open>INSERT INTO jobs (id, params) VALUES (?, ?)\<close> appends a row with the defaults of
  the other columns, unless the primary key is taken.
\<close>

definition new_row :: "nat \<Rightarrow> string \<Rightarrow> string \<Rightarrow> job_row" where
  "new_row t p1 p2 =
     \<lparr>job_id = p1, params = p2, status = Queued, createdAt = t, processedAt = None,
      error = None\<rparr>"

definition insert_job :: "env \<Rightarrow> string \<Rightarrow> string \<Rightarrow> db \<Rightarrow> unit outcome" where
  "insert_job e p1 p2 d =
     (if busy e Insert_Job then (Inl SQLITE_BUSY, d)
      else if p1 \<in> job_id ` set (jobs d) then (Inl SQLITE_CONSTRAINT, d)
      else (Inr (), d\<lparr>jobs := jobs d @ [new_row (clock e) p1 p2]\<rparr>))"

text \<open>
  \<^verbatim>\<open>UPDATE jobs SET status = 'running', processedAt = CURRENT_TIMESTAMP WHERE id = ?\<close>
\<close>

definition mark_running :: "nat \<Rightarrow> string \<Rightarrow> job_row list \<Rightarrow> job_row list" where
  "mark_running t p1 rs =
     map (\<lambda>r. if job_id r = p1 then r\<lparr>status := Running, processedAt := Some t\<rparr> else r) rs"

definition update_running :: "env \<Rightarrow> string \<Rightarrow> db \<Rightarrow> unit outcome" where
  "update_running e p1 d =
     (if busy e Update_Running then (Inl SQLITE_BUSY, d)
      else (Inr (), d\<lparr>jobs := mark_running (clock e) p1 (jobs d)\<rparr>))"

text \<open>
  \<^verbatim>\<open>UPDATE jobs SET status = 'completed' WHERE id = ?\<close>
\<close>

definition mark_completed :: "string \<Rightarrow> job_row list \<Rightarrow> job_row list" where
  "mark_completed p1 rs = map (\<lambda>r. if job_id r = p1 then r\<lparr>status := Completed\<rparr> else r) rs"

definition update_completed :: "env \<Rightarrow> string \<Rightarrow> db \<Rightarrow> unit outcome" where
  "update_completed e p1 d =
     (if busy e Update_Completed then (Inl SQLITE_BUSY, d)
      else (Inr (), d\<lparr>jobs := mark_completed p1 (jobs d)\<rparr>))"

text \<open>
  \<^verbatim>\<open>UPDATE jobs SET status = 'failed', error = ? WHERE id = ?\<close>: the first bound value
  is stored in \<open>error\<close>, the second selects the row.
\<close>

definition mark_failed :: "string \<Rightarrow> string \<Rightarrow> job_row list \<Rightarrow> job_row list" where
  "mark_failed p1 p2 rs =
     map (\<lambda>r. if job_id r = p2 then r\<lparr>status := Failed, error := Some p1\<rparr> else r) rs"

definition update_failed :: "env \<Rightarrow> string \<Rightarrow> string \<Rightarrow> db \<Rightarrow> unit outcome" where
  "update_failed e p1 p2 d =
     (if busy e Update_Failed then (Inl SQLITE_BUSY, d)
      else (Inr (), d\<lparr>jobs := mark_failed p1 p2 (jobs d)\<rparr>))"

section \<open>The operations of the queue\<close>

text \<open>
  Every operation first awaits \<^verbatim>\<open>initQueueDb\<close>, which opens the file and creates the
  table on the first call and returns the shared handle on every later one; the
  operations below start from the opened store.

  \<^verbatim>\<open>JSON.stringify\<close> and \<^verbatim>\<open>JSON.parse\<close> belong to the JavaScript runtime; the
  operations take them as the parameters \<open>stringify\<close> and \<open>parse\<close> (\<open>None\<close> when
  \<^verbatim>\<open>JSON.parse\<close> throws), over a type \<open>'p\<close> of JSON-compatible values.

  \<^verbatim>\<open>
  export async function addJobToQueue(id: string, params: object): Promise<void> {
    const db = await initQueueDb();
    await db.run('INSERT INTO jobs (id, params) VALUES (?, ?)', id, JSON.stringify(params));
  }
  \<close>
\<close>

definition addJobToQueue :: "('p \<Rightarrow> string) \<Rightarrow> env \<Rightarrow> string \<Rightarrow> 'p \<Rightarrow> db \<Rightarrow> unit outcome" where
  "addJobToQueue stringify e i p d = insert_job e i (stringify p) d"

text \<open>
  The \<^verbatim>\<open>try\<close> block of \<^verbatim>\<open>getNextJob\<close>: BEGIN, SELECT, then either COMMIT and
  \<^verbatim>\<open>null\<close>, or UPDATE, COMMIT and the job with its parameters parsed.
\<close>

definition getNextJob_try ::
  "(string \<Rightarrow> 'p option) \<Rightarrow> env \<Rightarrow> db \<Rightarrow> (string \<times> 'p) option outcome" where
  "getNextJob_try parse e d =
     and_then (exec_begin e d) (\<lambda>_ d1.
     and_then (select_oldest e d1) (\<lambda>job d2.
       case job of
         None \<Rightarrow> and_then (exec_commit e d2) (\<lambda>_ d3. (Inr None, d3))
       | Some (i, text) \<Rightarrow>
           and_then (update_running e i d2) (\<lambda>_ d3.
           and_then (exec_commit e d3) (\<lambda>_ d4.
             case parse text of
               None \<Rightarrow> (Inl SyntaxError, d4)
             | Some v \<Rightarrow> (Inr (Some (i, v)), d4)))))"

text \<open>
  The \<^verbatim>\<open>catch\<close> block: \<^verbatim>\<open>await db.exec('ROLLBACK')\<close>, then \<^verbatim>\<open>return null\<close>. A
  rejection of the ROLLBACK leaves the function.
\<close>

definition getNextJob ::
  "(string \<Rightarrow> 'p option) \<Rightarrow> env \<Rightarrow> db \<Rightarrow> (string \<times> 'p) option outcome" where
  "getNextJob parse e d =
     (case getNextJob_try parse e d of
        (Inr r, d1) \<Rightarrow> (Inr r, d1)
      | (Inl x, d1) \<Rightarrow> and_then (exec_rollback d1) (\<lambda>_ d2. (Inr None, d2)))"

text \<open>
  \<^verbatim>\<open>
  export async function completeJob(id: string): Promise<void> {
    const db = await initQueueDb();
    await db.run("UPDATE jobs SET status = 'completed' WHERE id = ?", id);
  }
  export async function failJob(id: string, error: string): Promise<void> {
    const db = await initQueueDb();
    await db.run("UPDATE jobs SET status = 'failed', error = ? WHERE id = ?", id, error);
  }
  \<close>
  Each function hands its arguments to the statement in the order in which the source
  lists them after the SQL text.
\<close>

definition completeJob :: "env \<Rightarrow> string \<Rightarrow> db \<Rightarrow> unit outcome" where
  "completeJob e i d = update_completed e i d"

definition failJob :: "env \<Rightarrow> string \<Rightarrow> string \<Rightarrow> db \<Rightarrow> unit outcome" where
  "failJob e i err d = update_failed e i err d"

text \<open>What a read of one job's row returns.\<close>

definition find_job :: "db \<Rightarrow> string \<Rightarrow> job_row option" where
  "find_job d i = find (\<lambda>r. job_id r = i) (jobs d)"

section \<open>Sequences of calls\<close>

text \<open>
  A caller issues the four operations one after another on the shared connection, each
  in its own environment; a call answers by resolving, by returning a job or
  \<^verbatim>\<open>null\<close>, or by rejecting.
\<close>

datatype 'p call = AddJobToQueue string 'p | GetNextJob | CompleteJob string | FailJob string string

datatype 'p reply = Resolved | Returned "(string \<times> 'p) option" | Rejected error

definition settle :: "unit outcome \<Rightarrow> 'p reply \<times> db" where
  "settle r = (case r of (Inl x, d) \<Rightarrow> (Rejected x, d) | (Inr _, d) \<Rightarrow> (Resolved, d))"

fun perform :: "('p \<Rightarrow> string) \<Rightarrow> (string \<Rightarrow> 'p option) \<Rightarrow> env \<Rightarrow> 'p call \<Rightarrow> db \<Rightarrow> 'p reply \<times> db" where
  "perform stringify parse e (AddJobToQueue i p) d = settle (addJobToQueue stringify e i p d)"
| "perform stringify parse e GetNextJob d =
     (case getNextJob parse e d of
        (Inl x, d1) \<Rightarrow> (Rejected x, d1)
      | (Inr job, d1) \<Rightarrow> (Returned job, d1))"
| "perform stringify parse e (CompleteJob i) d = settle (completeJob e i d)"
| "perform stringify parse e (FailJob i err) d = settle (failJob e i err d)"

fun run :: "('p \<Rightarrow> string) \<Rightarrow> (string \<Rightarrow> 'p option) \<Rightarrow> (env \<times> 'p call) list \<Rightarrow> db \<Rightarrow>
    'p reply list \<times> db" where
  "run stringify parse [] d = ([], d)"
| "run stringify parse ((e, c) # cs) d =
     (case perform stringify parse e c d of
        (r, d1) \<Rightarrow> (case run stringify parse cs d1 of (rs, d2) \<Rightarrow> (r # rs, d2)))"

text \<open>The ids of the jobs that a list of replies returned, in order.\<close>

fun returned_ids :: "'p reply list \<Rightarrow> string list" where
  "returned_ids [] = []"
| "returned_ids (Returned (Some (i, p)) # rs) = i # returned_ids rs"
| "returned_ids (r # rs) = returned_ids rs"

text \<open>
  The calls of the scenario "enqueue some jobs, then claim them": one
  \<^verbatim>\<open>addJobToQueue\<close> for each triple of clock reading, id and parameters, then one
  \<^verbatim>\<open>getNextJob\<close> for each clock reading, all without contention. \<open>enqueued_row\<close> is
  the row that such an enqueue inserts.
\<close>

definition enqueue_calls :: "(nat \<times> string \<times> 'p) list \<Rightarrow> (env \<times> 'p call) list" where
  "enqueue_calls js = map (\<lambda>(t, i, p). (quiet t, AddJobToQueue i p)) js"

definition claim_calls :: "nat list \<Rightarrow> (env \<times> 'p call) list" where
  "claim_calls ts = map (\<lambda>t. (quiet t, GetNextJob)) ts"

definition enqueued_row :: "('p \<Rightarrow> string) \<Rightarrow> nat \<times> string \<times> 'p \<Rightarrow> job_row" where
  "enqueued_row stringify j = (case j of (t, i, p) \<Rightarrow> new_row t i (stringify p))"

section \<open>Properties of the table\<close>

text \<open>
  \<open>taken rs i\<close>: the id \<open>i\<close> is in the table and no row with this id is queued.
  \<open>allowed s s'\<close>: the status changes that the four operations can make to a row, from
  \<open>s\<close> to \<open>s'\<close>. \<open>evolves rs rs'\<close>: the table \<open>rs'\<close> keeps the rows of \<open>rs\<close> in place, each
  with its id and an allowed change of status, and may have more rows at the end.
  \<open>wf_db\<close>: no transaction is open and the ids are unique, as the primary key demands.
\<close>

definition taken :: "job_row list \<Rightarrow> string \<Rightarrow> bool" where
  "taken rs i \<longleftrightarrow> i \<in> set (map job_id rs) \<and> (\<forall>r\<in>set rs. job_id r = i \<longrightarrow> status r \<noteq> Queued)"

definition allowed :: "job_status \<Rightarrow> job_status \<Rightarrow> bool" where
  "allowed s s' \<longleftrightarrow> s' = s \<or> (s = Queued \<and> s' = Running) \<or> s' = Completed \<or> s' = Failed"

definition evolves :: "job_row list \<Rightarrow> job_row list \<Rightarrow> bool" where
  "evolves rs rs' \<longleftrightarrow>
     length rs \<le> length rs' \<and>
     list_all2 (\<lambda>r r'. job_id r' = job_id r \<and> allowed (status r) (status r')) rs (take (length rs) rs')"

definition wf_db :: "db \<Rightarrow> bool" where
  "wf_db d \<longleftrightarrow> tx d = None \<and> distinct (map job_id (jobs d))"

section \<open>Example values\<close>

text \<open>
  To run the operations on concrete stores, \<^verbatim>\<open>JSON.stringify\<close> and \<^verbatim>\<open>JSON.parse\<close>
  on flat objects whose values are plain strings (no quote, no backslash), the shape of the
  parameters that the server enqueues: \<^verbatim>\<open>{"repository":"acme/api","targetBranch":"main"}\<close>.
  The parser counts down the number of characters it may still read; a text that is not
  such an object gives \<open>None\<close>.
\<close>

definition dq :: char where "dq = CHR 0x22"

definition quote :: "string \<Rightarrow> string" where
  "quote s = dq # s @ [dq]"

fun members :: "(string \<times> string) list \<Rightarrow> string" where
  "members [] = []"
| "members [(k, v)] = quote k @ '':'' @ quote v"
| "members ((k, v) # m) = quote k @ '':'' @ quote v @ '','' @ members m"

definition stringify_flat :: "(string \<times> string) list \<Rightarrow> string" where
  "stringify_flat m = ''{'' @ members m @ ''}''"

definition unquote :: "string \<Rightarrow> (string \<times> string) option" where
  "unquote s =
     (case s of
        [] \<Rightarrow> None
      | c # cs \<Rightarrow>
          if c \<noteq> dq then None
          else (case dropWhile (\<lambda>x. x \<noteq> dq) cs of
                  [] \<Rightarrow> None
                | _ # rest \<Rightarrow> Some (takeWhile (\<lambda>x. x \<noteq> dq) cs, rest)))"

fun parse_members :: "nat \<Rightarrow> string \<Rightarrow> (string \<times> string) list option" where
  "parse_members 0 s = None"
| "parse_members (Suc n) s =
     (case unquote s of
        None \<Rightarrow> None
      | Some (k, s1) \<Rightarrow>
          (case s1 of
             [] \<Rightarrow> None
           | c # s2 \<Rightarrow>
               if c \<noteq> CHR '':'' then None
               else (case unquote s2 of
                       None \<Rightarrow> None
                     | Some (v, s3) \<Rightarrow>
                         if s3 = ''}'' then Some [(k, v)]
                         else (case s3 of
                                 [] \<Rightarrow> None
                               | c3 # s4 \<Rightarrow>
                                   if c3 \<noteq> CHR '','' then None
                                   else map_option ((#) (k, v)) (parse_members n s4)))))"

definition parse_flat :: "string \<Rightarrow> (string \<times> string) list option" where
  "parse_flat s =
     (if s = ''{}'' then Some []
      else (case s of
              [] \<Rightarrow> None
            | c # cs \<Rightarrow> if c \<noteq> CHR ''{'' then None else parse_members (length cs) cs))"

definition cherry_pick :: "(string \<times> string) list" where
  "cherry_pick = [(''repository'', ''acme/api''), (''targetBranch'', ''release-1.2'')]"

definition backport :: "(string \<times> string) list" where
  "backport = [(''repository'', ''acme/web''), (''targetBranch'', ''main''), (''prFilterQuery'', ''label:backport'')]"

text \<open>
  A store with two queued jobs, one with a single running job, one whose oldest queued job
  holds a text that is not JSON, an environment in which another connection holds the write
  lock when the transaction begins, and two longer sequences of calls.
\<close>

definition store_ab :: db where
  "store_ab = \<lparr>jobs = [new_row 0 ''a'' (stringify_flat cherry_pick),
                      new_row 1 ''b'' (stringify_flat backport)], tx = None\<rparr>"

definition store_running :: db where
  "store_running = \<lparr>jobs = [(new_row 0 ''a'' (stringify_flat cherry_pick))
                      \<lparr>status := Running, processedAt := Some 4\<rparr>], tx = None\<rparr>"

definition store_garbled :: db where
  "store_garbled = \<lparr>jobs = [new_row 0 ''a'' ''{oops'', new_row 1 ''b'' (stringify_flat backport)], tx = None\<rparr>"

definition contended :: "nat \<Rightarrow> env" where
  "contended t = \<lparr>clock = t, busy = (\<lambda>s. s = Begin_Immediate)\<rparr>"

definition busy_day :: "(env \<times> (string \<times> string) list call) list" where
  "busy_day =
     [(quiet 0, AddJobToQueue ''a'' cherry_pick), (quiet 1, AddJobToQueue ''b'' backport),
      (quiet 2, GetNextJob), (contended 3, GetNextJob), (quiet 4, CompleteJob ''a''),
      (quiet 5, AddJobToQueue ''a'' backport), (quiet 6, GetNextJob),
      (quiet 7, FailJob ''boom'' ''b''), (quiet 8, GetNextJob)]"
definition late_shift :: "(env \<times> (string \<times> string) list call) list" where
  "late_shift =
     [(quiet 2, GetNextJob), (quiet 3, CompleteJob ''a''), (contended 4, GetNextJob),
      (quiet 5, GetNextJob), (quiet 6, FailJob ''b'' ''b''),
      (quiet 7, AddJobToQueue ''c'' cherry_pick), (quiet 8, CompleteJob ''a'')]"

lemmas ex_defs = store_ab_def store_running_def store_garbled_def new_row_def quiet_def
  contended_def cherry_pick_def backport_def

lemmas codec_defs = parse_flat_def stringify_flat_def quote_def dq_def unquote_def

lemmas op_defs = getNextJob_def getNextJob_try_def and_then_def exec_begin_def
  select_oldest_def exec_commit_def update_running_def exec_rollback_def oldest_queued_def
  older_def mark_running_def addJobToQueue_def insert_job_def completeJob_def
  update_completed_def mark_completed_def failJob_def update_failed_def mark_failed_def
  settle_def find_job_def fresh_db_def

section \<open>The example codec reads back what it writes\<close>

text \<open>
  For flat objects whose keys and values hold no quote character, parsing the text of an
  object gives the object back: the law that the theorems about parameters assume of
  \<open>stringify\<close> and \<open>parse\<close>.
\<close>

lemma unquote_quote: "dq \<notin> set s \<Longrightarrow> unquote (quote s @ rest) = Some (s, rest)"
proof -
  assume a: "dq \<notin> set s"
  have d: "dropWhile (\<lambda>x. x \<noteq> dq) (s @ dq # rest) = dq # rest"
    using a by (auto simp: dropWhile_append3)
  have t: "takeWhile (\<lambda>x. x \<noteq> dq) (s @ dq # rest) = s"
    using a by (auto simp: takeWhile_tail)
  show ?thesis by (simp add: unquote_def quote_def d t)
qed

lemma length_members: "length m \<le> length (members m)"
  by (induction m rule: members.induct) (simp_all add: quote_def)

lemma members_nonempty: "m \<noteq> [] \<Longrightarrow> \<exists>cs. members m = dq # cs"
  by (induction m rule: members.induct) (simp_all add: quote_def)

lemma parse_members_members:
  assumes "m \<noteq> []" and "\<forall>(k, v)\<in>set m. dq \<notin> set k \<and> dq \<notin> set v" and "length m \<le> n"
  shows "parse_members n (members m @ ''}'') = Some m"
  using assms
proof (induction m arbitrary: n rule: members.induct)
  case 1
  then show ?case by simp
next
  case (2 k v)
  then obtain n' where n: "n = Suc n'" by (cases n) auto
  have k: "dq \<notin> set k" and v: "dq \<notin> set v" using 2 by auto
  show ?case
    unfolding n using unquote_quote[OF k, of "'':'' @ quote v @ ''}''"] unquote_quote[OF v, of "''}''"]
    by simp
next
  case (3 k v x xs)
  then obtain n' where n: "n = Suc n'" and n': "length (x # xs) \<le> n'" by (cases n) auto
  have k: "dq \<notin> set k" and v: "dq \<notin> set v" using 3 by auto
  have ih: "parse_members n' (members (x # xs) @ ''}'') = Some (x # xs)"
    using 3 n' by auto
  show ?case
    unfolding n
    using unquote_quote[OF k, of "'':'' @ quote v @ '','' @ members (x # xs) @ ''}''"]
      unquote_quote[OF v, of "'','' @ members (x # xs) @ ''}''"] ih
    by simp
qed

lemma parse_flat_stringify_flat:
  assumes "\<forall>(k, v)\<in>set m. dq \<notin> set k \<and> dq \<notin> set v"
  shows "parse_flat (stringify_flat m) = Some m"
proof (cases m)
  case Nil
  then show ?thesis by (simp add: parse_flat_def stringify_flat_def)
next
  case (Cons a as)
  then obtain cs where cs: "members m = dq # cs" using members_nonempty[of m] by auto
  have ne: "''{'' @ members m @ ''}'' \<noteq> ''{}''" using cs by (simp add: dq_def)
  have "length m \<le> length (members m @ ''}'')" using length_members[of m] by simp
  then have "parse_members (length (members m @ ''}'')) (members m @ ''}'') = Some m"
    using parse_members_members[OF _ assms] Cons by blast
  then show ?thesis using ne by (simp add: parse_flat_def stringify_flat_def)
qed

section \<open>The SELECT returns the oldest queued row\<close>

lemma idle_eq: "tx d = None \<Longrightarrow> d\<lparr>tx := None\<rparr> = d"
  by (cases d) simp

lemma foldl_older_mem: "foldl older q qs \<in> set (q # qs)"
  by (induction qs arbitrary: q) (auto simp: older_def)

lemma foldl_older_le: "\<forall>r\<in>set (q # qs). createdAt (foldl older q qs) \<le> createdAt r"
proof (induction qs arbitrary: q)
  case Nil then show ?case by simp
next
  case (Cons a qs)
  have "createdAt (foldl older (older q a) qs) \<le> createdAt (older q a)"
    using Cons.IH[of "older q a"] by simp
  moreover have "createdAt (older q a) \<le> createdAt q" "createdAt (older q a) \<le> createdAt a"
    by (simp_all add: older_def)
  ultimately show ?case using Cons.IH[of "older q a"] by auto
qed

lemma foldl_older_least:
  "\<forall>r\<in>set qs. createdAt q \<le> createdAt r \<Longrightarrow> foldl older q qs = q"
  by (induction qs) (auto simp: older_def)

lemma oldest_queued_None: "oldest_queued rs = None \<longleftrightarrow> (\<forall>r\<in>set rs. status r \<noteq> Queued)"
proof (cases "filter (\<lambda>r. status r = Queued) rs")
  case Nil
  then show ?thesis by (simp add: oldest_queued_def filter_empty_conv)
next
  case (Cons q qs)
  then have "q \<in> set (filter (\<lambda>r. status r = Queued) rs)" by simp
  then have "q \<in> set rs" "status q = Queued" by simp_all
  then show ?thesis using Cons by (auto simp: oldest_queued_def)
qed

lemma oldest_queued_Some:
  assumes "oldest_queued rs = Some j"
  shows "j \<in> set rs" "status j = Queued"
    "\<forall>r\<in>set rs. status r = Queued \<longrightarrow> createdAt j \<le> createdAt r"
proof -
  obtain q qs where f: "filter (\<lambda>r. status r = Queued) rs = q # qs" and j: "j = foldl older q qs"
    using assms by (auto simp: oldest_queued_def split: list.splits)
  have m: "j \<in> set (filter (\<lambda>r. status r = Queued) rs)"
    unfolding f j by (rule foldl_older_mem)
  then show "j \<in> set rs" "status j = Queued" by auto
  show "\<forall>r\<in>set rs. status r = Queued \<longrightarrow> createdAt j \<le> createdAt r"
  proof (intro ballI impI)
    fix r assume "r \<in> set rs" "status r = Queued"
    then have "r \<in> set (q # qs)" unfolding f[symmetric] by simp
    then show "createdAt j \<le> createdAt r" unfolding j using foldl_older_le by blast
  qed
qed

lemma oldest_queued_first:
  assumes "\<forall>r\<in>set pre. status r \<noteq> Queued" and "status q = Queued"
    and "\<forall>r\<in>set rest. createdAt q \<le> createdAt r"
  shows "oldest_queued (pre @ q # rest) = Some q"
proof -
  have "filter (\<lambda>r. status r = Queued) pre = []" using assms(1) by (simp add: filter_empty_conv)
  then have "oldest_queued (pre @ q # rest) = Some (foldl older q (filter (\<lambda>r. status r = Queued) rest))"
    using assms(2) by (simp add: oldest_queued_def)
  moreover have "foldl older q (filter (\<lambda>r. status r = Queued) rest) = q"
    using assms(3) by (intro foldl_older_least) simp
  ultimately show ?thesis by simp
qed

section \<open>What one call of getNextJob does\<close>

text \<open>
  Without contention, on a connection with no open transaction, the call commits: it
  returns \<^verbatim>\<open>null\<close> on an empty queue, and otherwise marks the selected job as running
  and returns it, unless its text does not parse. Then the \<^verbatim>\<open>catch\<close> block runs after
  the COMMIT, its ROLLBACK finds no transaction, and the call rejects.
\<close>

lemma getNextJob_quiet:
  assumes "tx d = None" "\<forall>s. \<not> busy e s"
  shows "getNextJob parse e d =
     (case oldest_queued (jobs d) of
        None \<Rightarrow> (Inr None, d)
      | Some j \<Rightarrow>
          (case parse (params j) of
             None \<Rightarrow> (Inl SQLITE_ERROR, d\<lparr>jobs := mark_running (clock e) (job_id j) (jobs d)\<rparr>)
           | Some v \<Rightarrow> (Inr (Some (job_id j, v)),
                        d\<lparr>jobs := mark_running (clock e) (job_id j) (jobs d)\<rparr>)))"
  using assms
  by (cases d) (simp add: getNextJob_def getNextJob_try_def and_then_def exec_begin_def
      select_oldest_def exec_commit_def update_running_def exec_rollback_def
      split: option.splits)

text \<open>Every outcome of a call, whatever the engine refuses.\<close>

lemma getNextJob_cases:
  assumes "tx d = None" and "getNextJob parse e d = (res, d')"
  shows "(res = Inl SQLITE_ERROR \<and> d' = d \<and> busy e Begin_Immediate)
       \<or> (res = Inr None \<and> d' = d)
       \<or> (\<exists>j. oldest_queued (jobs d) = Some j
             \<and> d' = d\<lparr>jobs := mark_running (clock e) (job_id j) (jobs d)\<rparr>
             \<and> (\<forall>s. s \<in> {Begin_Immediate, Select_Oldest, Update_Running, Commit} \<longrightarrow> \<not> busy e s)
             \<and> (case parse (params j) of None \<Rightarrow> res = Inl SQLITE_ERROR
                  | Some v \<Rightarrow> res = Inr (Some (job_id j, v))))"
  using assms
  by (cases d) (auto simp: getNextJob_def getNextJob_try_def and_then_def exec_begin_def
      select_oldest_def exec_commit_def update_running_def exec_rollback_def
      split: option.splits if_splits)

text \<open>
  A statement refused after the transaction has begun is caught: the ROLLBACK restores the
  table and the call returns \<^verbatim>\<open>null\<close>.
\<close>

lemma getNextJob_rolls_back:
  assumes "tx d = None" and "\<not> busy e Begin_Immediate"
    and "busy e Select_Oldest \<or> busy e Update_Running \<or> busy e Commit"
  shows "getNextJob parse e d = (Inr None, d)"
  using assms
  by (cases d) (auto simp: getNextJob_def getNextJob_try_def and_then_def exec_begin_def
      select_oldest_def exec_commit_def update_running_def exec_rollback_def
      split: option.splits if_splits)

text \<open>
  A BEGIN refused for contention opens no transaction: the ROLLBACK of the \<^verbatim>\<open>catch\<close>
  block is rejected and the call rejects with it.
\<close>

lemma getNextJob_begin_refused:
  assumes "tx d = None" and "busy e Begin_Immediate"
  shows "getNextJob parse e d = (Inl SQLITE_ERROR, d)"
  using assms
  by (simp add: getNextJob_def getNextJob_try_def and_then_def exec_begin_def exec_rollback_def)

section \<open>What completeJob and failJob do\<close>

lemma completeJob_status:
  assumes "\<not> busy e Update_Completed" and "i \<in> job_id ` set (jobs d)"
  shows "\<exists>r. find_job (snd (completeJob e i d)) i = Some r \<and> status r = Completed"
proof -
  have "\<exists>r. find (\<lambda>r. job_id r = i) (mark_completed i rs) = Some r \<and> status r = Completed"
    if "i \<in> job_id ` set rs" for rs
    using that by (induction rs) (auto simp: mark_completed_def)
  then show ?thesis using assms by (simp add: completeJob_def update_completed_def find_job_def)
qed

lemma mark_completed_absent: "i \<notin> job_id ` set rs \<Longrightarrow> mark_completed i rs = rs"
  by (induction rs) (auto simp: mark_completed_def)

lemma mark_failed_absent: "k \<notin> job_id ` set rs \<Longrightarrow> mark_failed x k rs = rs"
  by (induction rs) (auto simp: mark_failed_def)

lemma completeJob_absent:
  assumes "i \<notin> job_id ` set (jobs d)" and "\<not> busy e Update_Completed"
  shows "completeJob e i d = (Inr (), d)"
  using assms by (cases d) (simp add: completeJob_def update_completed_def mark_completed_absent)

text \<open>\<^verbatim>\<open>failJob\<close> changes nothing when its second argument is the id of no row.\<close>

lemma failJob_second_argument_absent:
  assumes "err \<notin> job_id ` set (jobs d)" and "\<not> busy e Update_Failed"
  shows "failJob e i err d = (Inr (), d)"
  using assms by (cases d) (simp add: failJob_def update_failed_def mark_failed_absent)

section \<open>Invariants of sequences of calls\<close>

lemma allowed_refl: "allowed s s" by (simp add: allowed_def)

lemma allowed_trans: "allowed s s' \<Longrightarrow> allowed s' s'' \<Longrightarrow> allowed s s''"
  by (auto simp: allowed_def)

lemma evolves_refl: "evolves rs rs"
  by (simp add: evolves_def list_all2_same allowed_refl)

lemma evolves_trans:
  assumes "evolves rs rs'" "evolves rs' rs''"
  shows "evolves rs rs''"
proof -
  let ?R = "\<lambda>r r'. job_id r' = job_id r \<and> allowed (status r) (status r')"
  have l: "length rs \<le> length rs'" "length rs' \<le> length rs''"
    using assms by (simp_all add: evolves_def)
  have a: "list_all2 ?R rs (take (length rs) rs')" using assms(1) by (simp add: evolves_def)
  have "list_all2 ?R rs' (take (length rs') rs'')" using assms(2) by (simp add: evolves_def)
  then have "list_all2 ?R (take (length rs) rs') (take (length rs) (take (length rs') rs''))"
    by (rule list_all2_takeI)
  then have b: "list_all2 ?R (take (length rs) rs') (take (length rs) rs'')"
    using l by (simp add: min_def)
  have "list_all2 ?R rs (take (length rs) rs'')"
    using a b by (rule list_all2_trans[rotated]) (auto intro: allowed_trans)
  then show ?thesis using l by (simp add: evolves_def)
qed

lemma evolves_map:
  assumes "\<And>r. r \<in> set rs \<Longrightarrow> job_id (f r) = job_id r \<and> allowed (status r) (status (f r))"
  shows "evolves rs (map f rs)"
  using assms by (simp add: evolves_def list_all2_conv_all_nth)

lemma evolves_append: "evolves rs (rs @ xs)"
  by (simp add: evolves_def list_all2_same allowed_refl)

lemma map_job_id_mark_running [simp]: "map job_id (mark_running t i rs) = map job_id rs"
  by (induction rs) (auto simp: mark_running_def)

lemma map_job_id_mark_completed [simp]: "map job_id (mark_completed i rs) = map job_id rs"
  by (induction rs) (auto simp: mark_completed_def)

lemma map_job_id_mark_failed [simp]: "map job_id (mark_failed x i rs) = map job_id rs"
  by (induction rs) (auto simp: mark_failed_def)

lemma evolves_mark_completed: "evolves rs (mark_completed i rs)"
  unfolding mark_completed_def by (rule evolves_map) (simp add: allowed_def)

lemma evolves_mark_failed: "evolves rs (mark_failed x i rs)"
  unfolding mark_failed_def by (rule evolves_map) (simp add: allowed_def)

lemma evolves_mark_running:
  assumes "distinct (map job_id rs)" "j \<in> set rs" "status j = Queued"
  shows "evolves rs (mark_running t (job_id j) rs)"
  unfolding mark_running_def
proof (rule evolves_map)
  fix r assume r: "r \<in> set rs"
  have "r = j" if "job_id r = job_id j"
    using that r assms(1,2) by (meson distinct_map inj_onD)
  then show "job_id (if job_id r = job_id j then r\<lparr>status := Running, processedAt := Some t\<rparr> else r) = job_id r \<and>
     allowed (status r) (status (if job_id r = job_id j then r\<lparr>status := Running, processedAt := Some t\<rparr> else r))"
    using assms(3) by (auto simp: allowed_def)
qed

lemma taken_mark_running: "taken rs i \<Longrightarrow> taken (mark_running t k rs) i"
  unfolding taken_def map_job_id_mark_running by (auto simp: mark_running_def)

lemma taken_mark_completed: "taken rs i \<Longrightarrow> taken (mark_completed k rs) i"
  unfolding taken_def map_job_id_mark_completed by (auto simp: mark_completed_def)

lemma taken_mark_failed: "taken rs i \<Longrightarrow> taken (mark_failed x k rs) i"
  unfolding taken_def map_job_id_mark_failed by (auto simp: mark_failed_def)

lemma taken_after_mark_running: "j \<in> set rs \<Longrightarrow> taken (mark_running t (job_id j) rs) (job_id j)"
  unfolding taken_def map_job_id_mark_running by (auto simp: mark_running_def)

lemma mark_running_other: "i \<notin> set (map job_id rs) \<Longrightarrow> mark_running t i rs = rs"
  by (induction rs) (auto simp: mark_running_def)

lemma mark_running_append: "mark_running t i (xs @ ys) = mark_running t i xs @ mark_running t i ys"
  by (simp add: mark_running_def)

lemma mark_running_not_queued:
  "\<forall>r\<in>set rs. status r \<noteq> Queued \<Longrightarrow> \<forall>r\<in>set (mark_running t i rs). status r \<noteq> Queued"
  by (auto simp: mark_running_def)

text \<open>
  One call on an idle connection leaves it idle, keeps every taken id taken, and returns
  only an id that was not taken and is taken afterwards.
\<close>

lemma perform_taken:
  assumes "tx d = None" and "perform stringify parse e c d = (r, d')"
  shows "tx d' = None"
    and "taken (jobs d) i \<Longrightarrow> taken (jobs d') i"
    and "r = Returned (Some (k, v)) \<Longrightarrow> \<not> taken (jobs d) k \<and> taken (jobs d') k"
proof -
  have "tx d' = None \<and> (taken (jobs d) i \<longrightarrow> taken (jobs d') i)
      \<and> (r = Returned (Some (k, v)) \<longrightarrow> \<not> taken (jobs d) k \<and> taken (jobs d') k)"
  proof (cases c)
    case (AddJobToQueue a p)
    then show ?thesis using assms
      by (auto simp: settle_def addJobToQueue_def insert_job_def taken_def new_row_def
          split: if_splits)
  next
    case GetNextJob
    obtain res where g: "getNextJob parse e d = (res, d')"
      and r: "r = (case res of Inl x \<Rightarrow> Rejected x | Inr job \<Rightarrow> Returned job)"
      using assms(2) GetNextJob by (auto split: prod.splits sum.splits)
    from getNextJob_cases[OF assms(1) g]
    consider "d' = d" "\<forall>job. res \<noteq> Inr (Some job)"
      | j where "oldest_queued (jobs d) = Some j"
          "d' = d\<lparr>jobs := mark_running (clock e) (job_id j) (jobs d)\<rparr>"
          "case parse (params j) of None \<Rightarrow> res = Inl SQLITE_ERROR
             | Some v \<Rightarrow> res = Inr (Some (job_id j, v))"
      by auto
    then show ?thesis
    proof cases
      case 1
      then show ?thesis using assms(1) r by (auto split: sum.splits)
    next
      case 2
      note j = oldest_queued_Some[OF 2(1)]
      have "tx d' = None" using 2(2) assms(1) by simp
      moreover have "taken (jobs d) i \<longrightarrow> taken (jobs d') i"
        using 2(2) by (simp add: taken_mark_running)
      moreover have "r = Returned (Some (k, v)) \<longrightarrow> \<not> taken (jobs d) k \<and> taken (jobs d') k"
      proof
        assume "r = Returned (Some (k, v))"
        then have "k = job_id j" using r 2(3) by (auto split: option.splits sum.splits)
        then show "\<not> taken (jobs d) k \<and> taken (jobs d') k"
          using j(1,2) 2(2) taken_after_mark_running[OF j(1)] by (auto simp: taken_def)
      qed
      ultimately show ?thesis by blast
    qed
  next
    case (CompleteJob a)
    then show ?thesis using assms
      by (auto simp: settle_def completeJob_def update_completed_def taken_mark_completed
          split: if_splits)
  next
    case (FailJob a b)
    then show ?thesis using assms
      by (auto simp: settle_def failJob_def update_failed_def taken_mark_failed
          split: if_splits)
  qed
  then show "tx d' = None" and "taken (jobs d) i \<Longrightarrow> taken (jobs d') i"
    and "r = Returned (Some (k, v)) \<Longrightarrow> \<not> taken (jobs d) k \<and> taken (jobs d') k"
    by blast+
qed

lemma perform_evolves:
  assumes "wf_db d" and "perform stringify parse e c d = (r, d')"
  shows "wf_db d'" and "evolves (jobs d) (jobs d')"
proof -
  have idle: "tx d = None" and dist: "distinct (map job_id (jobs d))"
    using assms(1) by (simp_all add: wf_db_def)
  have "wf_db d' \<and> evolves (jobs d) (jobs d')"
  proof (cases c)
    case (AddJobToQueue a p)
    then show ?thesis using assms
      by (auto simp: settle_def addJobToQueue_def insert_job_def wf_db_def evolves_refl
          evolves_append new_row_def split: if_splits)
  next
    case GetNextJob
    obtain res where g: "getNextJob parse e d = (res, d')"
      using assms(2) GetNextJob by (auto split: prod.splits sum.splits)
    from getNextJob_cases[OF idle g]
    consider "d' = d"
      | j where "oldest_queued (jobs d) = Some j"
          "d' = d\<lparr>jobs := mark_running (clock e) (job_id j) (jobs d)\<rparr>"
      by auto
    then show ?thesis
    proof cases
      case 1
      then show ?thesis using assms(1) by (simp add: evolves_refl)
    next
      case 2
      note j = oldest_queued_Some[OF 2(1)]
      show ?thesis
        using 2(2) idle dist evolves_mark_running[OF dist j(1,2)] by (simp add: wf_db_def)
    qed
  next
    case (CompleteJob a)
    then show ?thesis using assms
      by (auto simp: settle_def completeJob_def update_completed_def wf_db_def evolves_refl
          evolves_mark_completed split: if_splits)
  next
    case (FailJob a b)
    then show ?thesis using assms
      by (auto simp: settle_def failJob_def update_failed_def wf_db_def evolves_refl
          evolves_mark_failed split: if_splits)
  qed
  then show "wf_db d'" and "evolves (jobs d) (jobs d')" by blast+
qed

lemma returned_ids_Cons:
  "returned_ids (r # rs) =
     (case r of Returned (Some (i, p)) \<Rightarrow> i # returned_ids rs | _ \<Rightarrow> returned_ids rs)"
  by (cases "r # rs" rule: returned_ids.cases) auto

lemma run_taken:
  assumes "tx d = None" and "run stringify parse cs d = (rs, d')"
  shows "tx d' = None
       \<and> (\<forall>i. taken (jobs d) i \<longrightarrow> taken (jobs d') i \<and> i \<notin> set (returned_ids rs))
       \<and> distinct (returned_ids rs)
       \<and> (\<forall>i\<in>set (returned_ids rs). taken (jobs d') i)"
  using assms
proof (induction cs arbitrary: d rs)
  case Nil
  then show ?case by simp
next
  case (Cons ec cs)
  obtain e c where ec: "ec = (e, c)" by (cases ec)
  obtain r d1 where p: "perform stringify parse e c d = (r, d1)"
    by (cases "perform stringify parse e c d")
  obtain rs1 where t: "run stringify parse cs d1 = (rs1, d')" and rs: "rs = r # rs1"
    using Cons.prems(2) ec p by (auto split: prod.splits)
  note st = perform_taken[OF Cons.prems(1) p]
  note ih = Cons.IH[OF st(1) t]
  have old: "\<forall>i. taken (jobs d) i \<longrightarrow> taken (jobs d') i \<and> i \<notin> set (returned_ids rs)"
  proof (intro allI impI)
    fix i assume ti: "taken (jobs d) i"
    then have t1: "taken (jobs d1) i" by (rule st(2))
    then have a: "taken (jobs d') i" "i \<notin> set (returned_ids rs1)" using ih by blast+
    have "r \<noteq> Returned (Some (i, v))" for v
      using st(3)[of i v] ti by blast
    then have "i \<notin> set (returned_ids rs)"
      unfolding rs returned_ids_Cons using a(2)
      by (auto split: reply.splits option.splits prod.splits)
    then show "taken (jobs d') i \<and> i \<notin> set (returned_ids rs)" using a by simp
  qed
  have new: "distinct (returned_ids rs) \<and> (\<forall>i\<in>set (returned_ids rs). taken (jobs d') i)"
  proof (cases "\<exists>k v. r = Returned (Some (k, v))")
    case True
    then obtain k v where r: "r = Returned (Some (k, v))" by blast
    have "taken (jobs d1) k" using st(3)[OF r] by simp
    then have "taken (jobs d') k" "k \<notin> set (returned_ids rs1)" using ih by blast+
    then show ?thesis using ih rs r by simp
  next
    case False
    then have "returned_ids rs = returned_ids rs1"
      unfolding rs returned_ids_Cons by (auto split: reply.splits option.splits prod.splits)
    then show ?thesis using ih by simp
  qed
  show ?case using ih old new by blast
qed

lemma run_evolves:
  assumes "wf_db d" and "run stringify parse cs d = (rs, d')"
  shows "wf_db d' \<and> evolves (jobs d) (jobs d')"
  using assms
proof (induction cs arbitrary: d rs)
  case Nil
  then show ?case by (simp add: evolves_refl)
next
  case (Cons ec cs)
  obtain e c where ec: "ec = (e, c)" by (cases ec)
  obtain r d1 where p: "perform stringify parse e c d = (r, d1)"
    by (cases "perform stringify parse e c d")
  obtain rs1 where t: "run stringify parse cs d1 = (rs1, d')"
    using Cons.prems(2) ec p by (auto split: prod.splits)
  note st = perform_evolves[OF Cons.prems(1) p]
  show ?case using Cons.IH[OF st(1) t] st(2) evolves_trans by blast
qed

lemma run_append:
  "run stringify parse (cs @ cs') d =
     (case run stringify parse cs d of
        (rs, d1) \<Rightarrow> (case run stringify parse cs' d1 of (rs', d2) \<Rightarrow> (rs @ rs', d2)))"
  by (induction cs arbitrary: d) (auto split: prod.splits)

section \<open>Enqueue, then claim\<close>

lemma run_enqueue_calls:
  assumes "distinct (map (\<lambda>j. fst (snd j)) js)"
    and "\<forall>j\<in>set js. fst (snd j) \<notin> set (map job_id (jobs d))"
  shows "run stringify parse (enqueue_calls js) d =
     (replicate (length js) Resolved, d\<lparr>jobs := jobs d @ map (enqueued_row stringify) js\<rparr>)"
  using assms
proof (induction js arbitrary: d)
  case Nil
  then show ?case by (simp add: enqueue_calls_def)
next
  case (Cons j js)
  obtain t i p where j: "j = (t, i, p)" by (cases j)
  let ?d1 = "d\<lparr>jobs := jobs d @ [new_row t i (stringify p)]\<rparr>"
  have step: "perform stringify parse (quiet t) (AddJobToQueue i p) d = (Resolved, ?d1)"
    using Cons.prems(2) j
    by (simp add: settle_def addJobToQueue_def insert_job_def quiet_def)
  have "run stringify parse (enqueue_calls js) ?d1 =
     (replicate (length js) Resolved, ?d1\<lparr>jobs := jobs ?d1 @ map (enqueued_row stringify) js\<rparr>)"
  proof (rule Cons.IH)
    show "distinct (map (\<lambda>j. fst (snd j)) js)" using Cons.prems(1) by simp
    show "\<forall>j\<in>set js. fst (snd j) \<notin> set (map job_id (jobs ?d1))"
      using Cons.prems j by (auto simp: new_row_def)
  qed
  then show ?case using step j
    by (simp add: enqueue_calls_def enqueued_row_def)
qed

lemma run_claim_calls:
  assumes "tx d = None" and "jobs d = pre @ map (enqueued_row stringify) js"
    and "\<forall>r\<in>set pre. status r \<noteq> Queued"
    and "distinct (map (\<lambda>j. fst (snd j)) js)"
    and "sorted (map fst js)"
    and "\<forall>j\<in>set js. parse (stringify (snd (snd j))) = Some (snd (snd j))"
    and "length ts = Suc (length js)"
  shows "fst (run stringify parse (claim_calls ts) d) =
     map (\<lambda>j. Returned (Some (snd j))) js @ [Returned None]"
  using assms
proof (induction js arbitrary: d pre ts)
  case Nil
  then obtain t where ts: "ts = [t]" by (cases ts) auto
  have "oldest_queued (jobs d) = None" using Nil.prems(2,3) by (simp add: oldest_queued_None)
  then have "getNextJob parse (quiet t) d = (Inr None, d)"
    using getNextJob_quiet[of d "quiet t" parse] Nil.prems(1) by (simp add: quiet_def)
  then show ?case by (simp add: ts claim_calls_def)
next
  case (Cons j js)
  obtain t i p where j: "j = (t, i, p)" by (cases j)
  obtain u us where ts: "ts = u # us" and us: "length us = Suc (length js)"
    using Cons.prems(7) by (cases ts) auto
  let ?q = "new_row t i (stringify p)"
  let ?rest = "map (enqueued_row stringify) js"
  have rows: "jobs d = pre @ ?q # ?rest" using Cons.prems(2) j by (simp add: enqueued_row_def)
  have le: "\<forall>r\<in>set ?rest. createdAt ?q \<le> createdAt r"
    using Cons.prems(5) j by (auto simp: enqueued_row_def new_row_def)
  have old: "oldest_queued (jobs d) = Some ?q"
    unfolding rows by (rule oldest_queued_first[OF Cons.prems(3) _ le]) (simp add: new_row_def)
  have pq: "parse (params ?q) = Some p" using Cons.prems(6) j by (simp add: new_row_def)
  let ?d1 = "d\<lparr>jobs := mark_running u i (jobs d)\<rparr>"
  have get: "getNextJob parse (quiet u) d = (Inr (Some (i, p)), ?d1)"
    using getNextJob_quiet[of d "quiet u" parse] Cons.prems(1) old pq
    by (simp add: quiet_def new_row_def)
  have "i \<notin> set (map job_id ?rest)"
    using Cons.prems(4) j by (auto simp: enqueued_row_def new_row_def image_iff split: prod.splits)
  then have keep: "mark_running u i ?rest = ?rest" by (rule mark_running_other)
  let ?pre1 = "mark_running u i pre @ [?q\<lparr>status := Running, processedAt := Some u\<rparr>]"
  have rows1: "jobs ?d1 = ?pre1 @ ?rest"
    using rows keep by (simp add: mark_running_append) (simp add: mark_running_def new_row_def)
  have "fst (run stringify parse (claim_calls us) ?d1) =
     map (\<lambda>j. Returned (Some (snd j))) js @ [Returned None]"
  proof (rule Cons.IH[OF _ rows1])
    show "tx ?d1 = None" using Cons.prems(1) by simp
    show "\<forall>r\<in>set ?pre1. status r \<noteq> Queued"
      using mark_running_not_queued[OF Cons.prems(3)] by auto
    show "distinct (map (\<lambda>j. fst (snd j)) js)" using Cons.prems(4) by simp
    show "sorted (map fst js)" using Cons.prems(5) by simp
    show "\<forall>j\<in>set js. parse (stringify (snd (snd j))) = Some (snd (snd j))"
      using Cons.prems(6) by simp
    show "length us = Suc (length js)" by (rule us)
  qed
  then show ?case using get j by (auto simp: ts claim_calls_def split: prod.splits)
qed

lemma run_busy_day:
  "run stringify_flat parse_flat busy_day fresh_db =
     ([Resolved, Resolved, Returned (Some (''a'', cherry_pick)), Rejected SQLITE_ERROR, Resolved,
       Rejected SQLITE_CONSTRAINT, Returned (Some (''b'', backport)), Resolved, Returned None],
      \<lparr>jobs = [(new_row 0 ''a'' (stringify_flat cherry_pick))
                  \<lparr>status := Completed, processedAt := Some 2\<rparr>,
               (new_row 1 ''b'' (stringify_flat backport))
                  \<lparr>status := Failed, processedAt := Some 6, error := Some ''boom''\<rparr>],
       tx = None\<rparr>)"
  by (simp add: busy_day_def ex_defs op_defs codec_defs)

lemma run_late_shift:
  "run stringify_flat parse_flat late_shift store_ab =
     ([Returned (Some (''a'', cherry_pick)), Resolved, Rejected SQLITE_ERROR,
       Returned (Some (''b'', backport)), Resolved, Resolved, Resolved],
      \<lparr>jobs = [(new_row 0 ''a'' (stringify_flat cherry_pick))
                  \<lparr>status := Completed, processedAt := Some 2\<rparr>,
               (new_row 1 ''b'' (stringify_flat backport))
                  \<lparr>status := Failed, processedAt := Some 5, error := Some ''b''\<rparr>,
               new_row 7 ''c'' (stringify_flat cherry_pick)],
       tx = None\<rparr>)"
  by (simp add: late_shift_def ex_defs op_defs codec_defs)

section \<open>The claims\<close>

text \<open>
  Claim C1 is about calls that overlap in time on several connections. Which of them gets
  the write lock is decided by the storage engine and its busy timeout; the operations
  above run one call at a time.
\<close>

text \<open>
  Claim C2. On a connection with no open transaction and without contention,
  \<^verbatim>\<open>getNextJob\<close> returns \<^verbatim>\<open>null\<close> and changes nothing when no job is queued. When
  some job is queued it selects a queued job whose \<open>createdAt\<close> is least, the store after
  the call is the one in which this job is running with \<open>processedAt\<close> the reading of the
  clock, and the call returns the job's id with the parameters \<open>p\<close> that were stored as
  \<open>stringify p\<close>, provided \<open>parse\<close> reads \<open>stringify p\<close> back as \<open>p\<close>.
\<close>

theorem getNextJob_returns_oldest_queued:
  assumes "tx d = None" and "\<forall>s. \<not> busy e s"
  shows "((\<forall>r\<in>set (jobs d). status r \<noteq> Queued) \<longrightarrow> getNextJob parse e d = (Inr None, d))
    \<and> ((\<exists>r\<in>set (jobs d). status r = Queued) \<longrightarrow>
        (\<exists>j\<in>set (jobs d). status j = Queued
          \<and> (\<forall>r\<in>set (jobs d). status r = Queued \<longrightarrow> createdAt j \<le> createdAt r)
          \<and> snd (getNextJob parse e d) = d\<lparr>jobs := mark_running (clock e) (job_id j) (jobs d)\<rparr>
          \<and> (\<forall>r\<in>set (jobs (snd (getNextJob parse e d))). job_id r = job_id j \<longrightarrow>
                status r = Running \<and> processedAt r = Some (clock e))
          \<and> (\<forall>p. params j = stringify p \<and> parse (stringify p) = Some p \<longrightarrow>
                fst (getNextJob parse e d) = Inr (Some (job_id j, p)))))"
proof (intro conjI impI)
  assume "\<forall>r\<in>set (jobs d). status r \<noteq> Queued"
  then have "oldest_queued (jobs d) = None" by (simp add: oldest_queued_None)
  then show "getNextJob parse e d = (Inr None, d)"
    using getNextJob_quiet[OF assms, of parse] by simp
next
  assume "\<exists>r\<in>set (jobs d). status r = Queued"
  then obtain j where j: "oldest_queued (jobs d) = Some j"
    using oldest_queued_None[of "jobs d"] by (cases "oldest_queued (jobs d)") auto
  note props = oldest_queued_Some[OF j]
  let ?d' = "d\<lparr>jobs := mark_running (clock e) (job_id j) (jobs d)\<rparr>"
  have g: "getNextJob parse e d =
      (case parse (params j) of None \<Rightarrow> (Inl SQLITE_ERROR, ?d') | Some v \<Rightarrow> (Inr (Some (job_id j, v)), ?d'))"
    using getNextJob_quiet[OF assms, of parse] j by simp
  have s: "snd (getNextJob parse e d) = ?d'" using g by (simp split: option.splits)
  have m: "\<forall>r\<in>set (jobs (snd (getNextJob parse e d))). job_id r = job_id j \<longrightarrow>
                status r = Running \<and> processedAt r = Some (clock e)"
    unfolding s by (auto simp: mark_running_def)
  have p: "\<forall>p. params j = stringify p \<and> parse (stringify p) = Some p \<longrightarrow>
                fst (getNextJob parse e d) = Inr (Some (job_id j, p))"
    using g by simp
  show "\<exists>j\<in>set (jobs d). status j = Queued
          \<and> (\<forall>r\<in>set (jobs d). status r = Queued \<longrightarrow> createdAt j \<le> createdAt r)
          \<and> snd (getNextJob parse e d) = d\<lparr>jobs := mark_running (clock e) (job_id j) (jobs d)\<rparr>
          \<and> (\<forall>r\<in>set (jobs (snd (getNextJob parse e d))). job_id r = job_id j \<longrightarrow>
                status r = Running \<and> processedAt r = Some (clock e))
          \<and> (\<forall>p. params j = stringify p \<and> parse (stringify p) = Some p \<longrightarrow>
                fst (getNextJob parse e d) = Inr (Some (job_id j, p)))"
    using props s m p by blast
qed

theorem getNextJob_returns_oldest_queued_witness:
  "tx store_ab = None \<and> (\<forall>s. \<not> busy (quiet 7) s)
   \<and> getNextJob parse_flat (quiet 7) store_ab =
       (Inr (Some (''a'', cherry_pick)),
        store_ab\<lparr>jobs := mark_running 7 ''a'' (jobs store_ab)\<rparr>)
   \<and> getNextJob parse_flat (quiet 7) fresh_db = (Inr None, fresh_db)"
proof -
  have h1: "tx store_ab = None" by (simp add: store_ab_def)
  have h2: "\<forall>s. \<not> busy (quiet 7) s" by (simp add: quiet_def)
  have h3: "tx fresh_db = None" by (simp add: fresh_db_def)
  from getNextJob_returns_oldest_queued[OF h1 h2, of parse_flat stringify_flat]
    getNextJob_returns_oldest_queued[OF h3 h2, of parse_flat stringify_flat] h1 h2
  show ?thesis
    by (simp add: ex_defs op_defs codec_defs)
qed

text \<open>
  Claim C3. When another connection holds the write lock, BEGIN IMMEDIATE is refused, the
  \<^verbatim>\<open>catch\<close> block issues a ROLLBACK although no transaction is open, SQLite rejects
  it, and this second error leaves \<^verbatim>\<open>getNextJob\<close>: the call rejects instead of
  returning \<^verbatim>\<open>null\<close>.
\<close>

theorem getNextJob_rejects_when_begin_busy:
  "getNextJob parse_flat (contended 7) store_ab = (Inl SQLITE_ERROR, store_ab)"
  by (simp add: ex_defs op_defs)

text \<open>
  Claim C4. Starting from a store without queued jobs, enqueue jobs with distinct new ids
  at clock readings that do not decrease, then call \<^verbatim>\<open>getNextJob\<close> once more than
  there are jobs, with no other caller: the enqueues resolve, the claims return the jobs
  in the order of insertion, each with its id and its parameters, and the last claim
  returns \<^verbatim>\<open>null\<close>.
\<close>

theorem claims_follow_insertion_order:
  assumes "tx d = None" and "\<forall>r\<in>set (jobs d). status r \<noteq> Queued"
    and "distinct (map (\<lambda>j. fst (snd j)) js)"
    and "\<forall>j\<in>set js. fst (snd j) \<notin> set (map job_id (jobs d))"
    and "sorted (map fst js)"
    and "\<forall>j\<in>set js. parse (stringify (snd (snd j))) = Some (snd (snd j))"
    and "length ts = Suc (length js)"
  shows "fst (run stringify parse (enqueue_calls js @ claim_calls ts) d) =
     replicate (length js) Resolved
     @ map (\<lambda>j. Returned (Some (snd j))) js @ [Returned None]"
proof -
  let ?d1 = "d\<lparr>jobs := jobs d @ map (enqueued_row stringify) js\<rparr>"
  have a: "run stringify parse (enqueue_calls js) d = (replicate (length js) Resolved, ?d1)"
    by (rule run_enqueue_calls[OF assms(3,4)])
  have b: "fst (run stringify parse (claim_calls ts) ?d1) =
     map (\<lambda>j. Returned (Some (snd j))) js @ [Returned None]"
    by (rule run_claim_calls[where pre = "jobs d"]) (use assms in simp_all)
  show ?thesis using a b by (auto simp: run_append split: prod.splits)
qed

theorem claims_follow_insertion_order_witness:
  "fst (run stringify_flat parse_flat
      (enqueue_calls [(0, ''A'', cherry_pick), (1, ''B'', backport)] @ claim_calls [2, 3, 4]) fresh_db)
   = [Resolved, Resolved, Returned (Some (''A'', cherry_pick)), Returned (Some (''B'', backport)),
      Returned None]"
proof -
  let ?js = "[(0::nat, ''A'', cherry_pick), (1, ''B'', backport)]"
  have h1: "tx fresh_db = None" by (simp add: fresh_db_def)
  have h2: "\<forall>r\<in>set (jobs fresh_db). status r \<noteq> Queued" by (simp add: fresh_db_def)
  have h3: "distinct (map (\<lambda>j. fst (snd j)) ?js)" by simp
  have h4: "\<forall>j\<in>set ?js. fst (snd j) \<notin> set (map job_id (jobs fresh_db))" by (simp add: fresh_db_def)
  have h5: "sorted (map fst ?js)" by simp
  have h6: "\<forall>j\<in>set ?js. parse_flat (stringify_flat (snd (snd j))) = Some (snd (snd j))"
    by (simp add: codec_defs cherry_pick_def backport_def)
  have h7: "length [2::nat, 3, 4] = Suc (length ?js)" by simp
  from claims_follow_insertion_order[OF h1 h2 h3 h4 h5 h6 h7] show ?thesis by simp
qed

text \<open>
  Claim C5. \<^verbatim>\<open>addJobToQueue\<close> with an id that is already in the table rejects with the
  constraint error of the engine, and the store is left as it was.
\<close>

theorem addJobToQueue_duplicate_id:
  assumes "i \<in> job_id ` set (jobs d)" and "\<not> busy e Insert_Job"
  shows "addJobToQueue stringify e i p d = (Inl SQLITE_CONSTRAINT, d)"
  using assms by (simp add: addJobToQueue_def insert_job_def)

theorem addJobToQueue_duplicate_id_witness:
  "''a'' \<in> job_id ` set (jobs store_ab) \<and> \<not> busy (quiet 7) Insert_Job
   \<and> addJobToQueue stringify_flat (quiet 7) ''a'' backport store_ab = (Inl SQLITE_CONSTRAINT, store_ab)"
proof -
  have h1: "''a'' \<in> job_id ` set (jobs store_ab)" by (simp add: store_ab_def new_row_def)
  have h2: "\<not> busy (quiet 7) Insert_Job" by (simp add: quiet_def)
  from addJobToQueue_duplicate_id[OF h1 h2, of stringify_flat backport] h1 h2 show ?thesis by simp
qed

text \<open>
  Claim C6 says that no operation moves a job out of completed or failed. The updates of
  \<^verbatim>\<open>completeJob\<close> and \<^verbatim>\<open>failJob\<close> have no condition on the status: after
  \<^verbatim>\<open>failJob('a', 'a')\<close> the job is failed, and \<^verbatim>\<open>completeJob('a')\<close> then makes it
  completed.
\<close>

theorem completeJob_leaves_failed:
  "map status (jobs (snd (run stringify_flat parse_flat
      [(quiet 0, AddJobToQueue ''a'' cherry_pick), (quiet 1, GetNextJob),
       (quiet 2, FailJob ''a'' ''a'')] fresh_db))) = [Failed]
   \<and> map status (jobs (snd (run stringify_flat parse_flat
      [(quiet 0, AddJobToQueue ''a'' cherry_pick), (quiet 1, GetNextJob),
       (quiet 2, FailJob ''a'' ''a''), (quiet 3, CompleteJob ''a'')] fresh_db))) = [Completed]"
  by (simp add: ex_defs op_defs codec_defs)

text \<open>
  Claim C6, amended. Over every sequence of calls that starts on a connection with no open
  transaction and a table with unique ids: every row stays in its place with its id, a row
  is queued afterwards only if it was queued before, and running afterwards only if it was
  queued or running before; no id is returned by two calls of \<^verbatim>\<open>getNextJob\<close>, and
  every returned id is in the table with a status other than queued. Afterwards the
  connection has again no open transaction and the ids are again unique.
\<close>

theorem status_never_returns_to_queued:
  assumes "tx d = None" and "distinct (map job_id (jobs d))"
    and "run stringify parse cs d = (rs, d')"
  shows "length (jobs d) \<le> length (jobs d')
    \<and> (\<forall>n<length (jobs d).
          job_id (jobs d' ! n) = job_id (jobs d ! n)
          \<and> (status (jobs d' ! n) = Queued \<longrightarrow> status (jobs d ! n) = Queued)
          \<and> (status (jobs d' ! n) = Running \<longrightarrow> status (jobs d ! n) \<in> {Queued, Running}))
    \<and> distinct (returned_ids rs)
    \<and> (\<forall>i\<in>set (returned_ids rs). i \<in> job_id ` set (jobs d')
          \<and> (\<forall>r\<in>set (jobs d'). job_id r = i \<longrightarrow> status r \<noteq> Queued))
    \<and> tx d' = None \<and> distinct (map job_id (jobs d'))"
proof -
  have wf: "wf_db d" using assms(1,2) by (simp add: wf_db_def)
  have ev: "evolves (jobs d) (jobs d')" using run_evolves[OF wf assms(3)] by simp
  have wf': "tx d' = None \<and> distinct (map job_id (jobs d'))"
    using run_evolves[OF wf assms(3)] by (simp add: wf_db_def)
  have len: "length (jobs d) \<le> length (jobs d')" using ev by (simp add: evolves_def)
  have rows: "\<forall>n<length (jobs d).
          job_id (jobs d' ! n) = job_id (jobs d ! n)
          \<and> (status (jobs d' ! n) = Queued \<longrightarrow> status (jobs d ! n) = Queued)
          \<and> (status (jobs d' ! n) = Running \<longrightarrow> status (jobs d ! n) \<in> {Queued, Running})"
  proof (intro allI impI)
    fix n assume n: "n < length (jobs d)"
    have "job_id (take (length (jobs d)) (jobs d') ! n) = job_id (jobs d ! n)
        \<and> allowed (status (jobs d ! n)) (status (take (length (jobs d)) (jobs d') ! n))"
      using ev n unfolding evolves_def by (auto dest: list_all2_nthD)
    then show "job_id (jobs d' ! n) = job_id (jobs d ! n)
          \<and> (status (jobs d' ! n) = Queued \<longrightarrow> status (jobs d ! n) = Queued)
          \<and> (status (jobs d' ! n) = Running \<longrightarrow> status (jobs d ! n) \<in> {Queued, Running})"
      using n by (auto simp: allowed_def)
  qed
  have tk: "distinct (returned_ids rs) \<and> (\<forall>i\<in>set (returned_ids rs). taken (jobs d') i)"
    using run_taken[OF assms(1,3)] by simp
  show ?thesis using len rows tk wf' by (simp add: taken_def)
qed

theorem status_never_returns_to_queued_witness:
  "tx fresh_db = None \<and> distinct (map job_id (jobs fresh_db))
   \<and> returned_ids (fst (run stringify_flat parse_flat busy_day fresh_db)) = [''a'', ''b'']
   \<and> map status (jobs (snd (run stringify_flat parse_flat busy_day fresh_db))) = [Completed, Failed]
   \<and> tx store_ab = None \<and> distinct (map job_id (jobs store_ab))
   \<and> returned_ids (fst (run stringify_flat parse_flat late_shift store_ab)) = [''a'', ''b'']
   \<and> map status (jobs store_ab) = [Queued, Queued]
   \<and> map status (jobs (snd (run stringify_flat parse_flat late_shift store_ab)))
        = [Completed, Failed, Queued]"
proof -
  have h1: "tx fresh_db = None" by (simp add: fresh_db_def)
  have h2: "distinct (map job_id (jobs fresh_db))" by (simp add: fresh_db_def)
  have h3: "tx store_ab = None" by (simp add: store_ab_def)
  have h4: "distinct (map job_id (jobs store_ab))" by (simp add: store_ab_def new_row_def)
  from status_never_returns_to_queued[OF h1 h2 run_busy_day]
    status_never_returns_to_queued[OF h3 h4 run_late_shift] h1 h2 h3 h4
  show ?thesis
    by (simp add: run_busy_day run_late_shift) (simp add: store_ab_def new_row_def)
qed

text \<open>
  Claim C7. \<^verbatim>\<open>failJob\<close> passes \<^verbatim>\<open>id, error\<close> to a statement whose placeholders are
  \<^verbatim>\<open>error = ?\<close> first and \<^verbatim>\<open>id = ?\<close> second. \<^verbatim>\<open>failJob('a', 'boom')\<close> on a
  store whose only job \<^verbatim>\<open>a\<close> is running looks for a row with id \<^verbatim>\<open>boom\<close>: the job
  stays running and its error stays empty.
\<close>

theorem failJob_leaves_job_running:
  "failJob (quiet 9) ''a'' ''boom'' store_running = (Inr (), store_running)
   \<and> map_option status (find_job store_running ''a'') = Some Running
   \<and> map_option error (find_job store_running ''a'') = Some None"
  by (simp add: ex_defs op_defs)

text \<open>
  Claim C8. For the same reason \<^verbatim>\<open>failJob('ghost', 'a')\<close>, whose id is in no row,
  changes the table: the job \<^verbatim>\<open>a\<close> becomes failed with the error text \<^verbatim>\<open>ghost\<close>.
\<close>

theorem failJob_absent_id_changes_table:
  "''ghost'' \<notin> job_id ` set (jobs store_ab)
   \<and> failJob (quiet 9) ''ghost'' ''a'' store_ab =
      (Inr (), store_ab\<lparr>jobs := [(new_row 0 ''a'' (stringify_flat cherry_pick))
                  \<lparr>status := Failed, error := Some ''ghost''\<rparr>,
                new_row 1 ''b'' (stringify_flat backport)]\<rparr>)"
  by (simp add: ex_defs op_defs)

text \<open>
  Claim C9. When the job that \<^verbatim>\<open>getNextJob\<close> selects holds a text that
  \<^verbatim>\<open>JSON.parse\<close> rejects, the call rejects with the error of the ROLLBACK that finds
  no transaction; the update is committed, the job is running, and no later call returns
  its id.
\<close>

theorem getNextJob_unparsable_params:
  assumes "tx d = None" and "\<forall>s. \<not> busy e s"
    and "oldest_queued (jobs d) = Some j" and "parse (params j) = None"
  shows "\<exists>d'. getNextJob parse e d = (Inl SQLITE_ERROR, d')
    \<and> tx d' = None
    \<and> jobs d' = mark_running (clock e) (job_id j) (jobs d)
    \<and> (\<forall>r\<in>set (jobs d'). job_id r = job_id j \<longrightarrow> status r = Running)
    \<and> (\<forall>cs. job_id j \<notin> set (returned_ids (fst (run stringify parse cs d'))))"
proof -
  let ?d' = "d\<lparr>jobs := mark_running (clock e) (job_id j) (jobs d)\<rparr>"
  have g: "getNextJob parse e d = (Inl SQLITE_ERROR, ?d')"
    using getNextJob_quiet[OF assms(1,2), of parse] assms(3,4) by simp
  have idle: "tx ?d' = None" using assms(1) by simp
  have mem: "j \<in> set (jobs d)" using oldest_queued_Some(1)[OF assms(3)] .
  have tk: "taken (jobs ?d') (job_id j)" using taken_after_mark_running[OF mem] by simp
  have run: "\<forall>cs. job_id j \<notin> set (returned_ids (fst (run stringify parse cs ?d')))"
  proof
    fix cs
    obtain rs d2 where r: "run stringify parse cs ?d' = (rs, d2)"
      by (cases "run stringify parse cs ?d'")
    show "job_id j \<notin> set (returned_ids (fst (run stringify parse cs ?d')))"
      using run_taken[OF idle r] tk r by simp
  qed
  have st: "\<forall>r\<in>set (jobs ?d'). job_id r = job_id j \<longrightarrow> status r = Running"
    by (auto simp: mark_running_def)
  show ?thesis using g idle st run by (intro exI[of _ ?d']) simp
qed

theorem getNextJob_unparsable_params_witness:
  "tx store_garbled = None \<and> (\<forall>s. \<not> busy (quiet 7) s)
   \<and> map_option job_id (oldest_queued (jobs store_garbled)) = Some ''a''
   \<and> parse_flat ''{oops'' = None
   \<and> fst (getNextJob parse_flat (quiet 7) store_garbled) = Inl SQLITE_ERROR
   \<and> map status (jobs (snd (getNextJob parse_flat (quiet 7) store_garbled))) = [Running, Queued]
   \<and> fst (getNextJob parse_flat (quiet 8) (snd (getNextJob parse_flat (quiet 7) store_garbled)))
       = Inr (Some (''b'', backport))"
proof -
  have h1: "tx store_garbled = None" by (simp add: store_garbled_def)
  have h2: "\<forall>s. \<not> busy (quiet 7) s" by (simp add: quiet_def)
  have h3: "oldest_queued (jobs store_garbled) = Some (new_row 0 ''a'' ''{oops'')"
    by (simp add: ex_defs op_defs)
  have h4: "parse_flat (params (new_row 0 ''a'' ''{oops'')) = None"
    by (simp add: new_row_def codec_defs)
  from getNextJob_unparsable_params[where parse = parse_flat and stringify = stringify_flat, OF h1 h2 h3 h4] h1 h2
  show ?thesis
    by (simp add: ex_defs op_defs codec_defs)
qed

text \<open>
  The half of claim C10 about \<^verbatim>\<open>completeJob\<close>: the state of the connection and the
  number and order of the rows stay as they are, every row is unchanged or is the row of
  the id with only its status set, and that row keeps the error text it had.
\<close>

lemma completeJob_frame:
  "tx (snd (completeJob e i d)) = tx d
   \<and> list_all2 (\<lambda>r r'. r' = r \<or> (job_id r = i \<and> r' = r\<lparr>status := Completed\<rparr>))
        (jobs d) (jobs (snd (completeJob e i d)))
   \<and> (\<forall>r\<in>set (jobs d). job_id r = i \<and> \<not> busy e Update_Completed \<longrightarrow>
         (\<exists>r'\<in>set (jobs (snd (completeJob e i d))).
            r' = r\<lparr>status := Completed\<rparr> \<and> error r' = error r))"
  by (auto simp: completeJob_def update_completed_def mark_completed_def
      list_all2_conv_all_nth)

text \<open>
  Claim C10. The half about \<^verbatim>\<open>failJob\<close> fails on the code, by the swapped arguments of
  claim C7. \<^verbatim>\<open>failJob('a', 'b')\<close> on a store with the queued jobs \<^verbatim>\<open>a\<close> and
  \<^verbatim>\<open>b\<close> leaves the row of the id \<^verbatim>\<open>a\<close> as it was and rewrites the status and the
  error of the other row, \<^verbatim>\<open>b\<close>. And \<^verbatim>\<open>failJob('a', 'disk full')\<close> followed by
  \<^verbatim>\<open>completeJob('a')\<close> on a store whose only job \<^verbatim>\<open>a\<close> is running ends with the job
  completed and no error text at all: the call of \<^verbatim>\<open>failJob\<close> stored none.
\<close>

theorem failJob_rewrites_other_row:
  "failJob (quiet 8) ''a'' ''b'' store_ab =
      (Inr (), store_ab\<lparr>jobs := [new_row 0 ''a'' (stringify_flat cherry_pick),
                (new_row 1 ''b'' (stringify_flat backport))
                  \<lparr>status := Failed, error := Some ''a''\<rparr>]\<rparr>)
   \<and> jobs (snd (completeJob (quiet 9) ''a'' (snd (failJob (quiet 8) ''a'' ''disk full'' store_running))))
      = [(new_row 0 ''a'' (stringify_flat cherry_pick))
           \<lparr>status := Completed, processedAt := Some 4, error := None\<rparr>]"
  by (simp add: ex_defs op_defs)

end
